theory Spec2Isabelle
  imports Main "HOL-Library.Multiset" "HOL-Library.Char_ord" "HOL-Library.List_Lexorder"
begin

section \<open>Data model\<close>

text \<open>
  The server keeps its data in one SQLite database. The tables are lists of rows in
  storage order. A reading row has the four columns the generator inserts and the query
  service selects. The column \<open>value\<close> is a Python float that is only stored and handed
  back, so its type is left open (\<open>'v\<close>); it is called \<open>value_f\<close> here.
\<close>

datatype error =
    HTTPException int string
  | RequestValidationError
  | OverflowError
  | DatabaseError

record machine =
  m_machine_id :: string
  m_name :: string
  m_location :: "string option"
  m_status :: string

record metric =
  k_metric_key :: string
  k_display_name :: string
  k_unit :: string

record 'v reading =
  machine_id :: string
  metric_key :: string
  ts_ms :: int
  value_f :: 'v

record 'v db =
  machines :: "machine list"
  metrics :: "metric list"
  readings :: "'v reading list"

text \<open>
  Modelled from the spec: the statement that creates \<open>latest_readings\<close>, the relation
  that \<open>get_latest\<close> selects from, is in the migration scripts, which are not among the
  sources. The spec gives it as derived from the readings: "the most recent Reading per
  (machine_id, metric_key)", "computed on read from Reading via a max-timestamp query
  per key". It is a view here: the readings that no reading of the same machine and
  metric exceeds in \<open>ts_ms\<close>.
\<close>

definition latest_readings :: "'v db \<Rightarrow> 'v reading list" where
  "latest_readings d =
    [r \<leftarrow> readings d.
       \<forall>r' \<in> set (readings d).
         machine_id r' = machine_id r \<and> metric_key r' = metric_key r \<longrightarrow> ts_ms r' \<le> ts_ms r]"

section \<open>seed.py\<close>

definition seed_machines :: "machine list" where
  "seed_machines =
    [\<lparr>m_machine_id = ''m-001'', m_name = ''Press 1'', m_location = Some ''Plant A'', m_status = ''ok''\<rparr>,
     \<lparr>m_machine_id = ''m-002'', m_name = ''CNC 2'', m_location = Some ''Plant A'', m_status = ''ok''\<rparr>,
     \<lparr>m_machine_id = ''m-003'', m_name = ''Oven 1'', m_location = Some ''Plant B'', m_status = ''ok''\<rparr>]"

definition seed_metrics :: "metric list" where
  "seed_metrics =
    [\<lparr>k_metric_key = ''temperature'', k_display_name = ''Temperature'', k_unit = ''C''\<rparr>,
     \<lparr>k_metric_key = ''pressure'', k_display_name = ''Pressure'', k_unit = ''kPa''\<rparr>,
     \<lparr>k_metric_key = ''vibration'', k_display_name = ''Vibration'', k_unit = ''mm/s''\<rparr>]"

text \<open>\<open>INSERT OR IGNORE\<close> on a table with a key: a row whose key is present is skipped.\<close>

definition insert_or_ignore :: "('r \<Rightarrow> 'k) \<Rightarrow> 'r list \<Rightarrow> 'r \<Rightarrow> 'r list" where
  "insert_or_ignore key rows r = (if key r \<in> set (map key rows) then rows else rows @ [r])"

definition executemany_insert_or_ignore :: "('r \<Rightarrow> 'k) \<Rightarrow> 'r list \<Rightarrow> 'r list \<Rightarrow> 'r list" where
  "executemany_insert_or_ignore key rows batch = foldl (insert_or_ignore key) rows batch"

definition seed :: "'v db \<Rightarrow> 'v db" where
  "seed d =
    d\<lparr>machines := executemany_insert_or_ignore m_machine_id (machines d) seed_machines,
      metrics := executemany_insert_or_ignore k_metric_key (metrics d) seed_metrics\<rparr>"

definition empty_db :: "'v db" where
  "empty_db = \<lparr>machines = [], metrics = [], readings = []\<rparr>"

section \<open>simulator.py: the tick loop\<close>

text \<open>
  Modelled from the spec: the \<open>CREATE TABLE readings\<close> statement is in the migration
  scripts; the spec gives the table as
  \<open>Reading(machine_id, metric_key, ts_ms, value; unique on the triple)\<close>.
\<close>

definition reading_key :: "'v reading \<Rightarrow> string \<times> string \<times> int" where
  "reading_key r = (machine_id r, metric_key r, ts_ms r)"

text \<open>
  The rows of one tick: the two nested \<open>for\<close> loops of \<open>_run_loop\<close>. \<open>now_ms\<close> is read from
  the clock once, before the loops. \<open>vf m k\<close> stands for \<open>float(self._value_for(k, t, mp, kp))\<close>,
  a floating-point wave with random noise.
\<close>

definition tick_rows :: "string list \<Rightarrow> string list \<Rightarrow> int \<Rightarrow> (string \<Rightarrow> string \<Rightarrow> 'v) \<Rightarrow> 'v reading list" where
  "tick_rows ms ks now vf =
    concat (map (\<lambda>m. map (\<lambda>k. \<lparr>machine_id = m, metric_key = k, ts_ms = now, value_f = vf m k\<rparr>) ks) ms)"

text \<open>
  The write of one tick: \<open>with self._conn: self._conn.executemany("INSERT OR IGNORE ...", rows)\<close>.
  \<open>fault\<close> is the failure the database raises during this write, if any; the
  \<open>with\<close> block then rolls back and lets the exception through.
\<close>

definition append_readings :: "error option \<Rightarrow> 'v db \<Rightarrow> 'v reading list \<Rightarrow> error + 'v db" where
  "append_readings fault d rows =
    (case fault of
       Some e \<Rightarrow> Inl e
     | None \<Rightarrow> Inr (d\<lparr>readings := executemany_insert_or_ignore reading_key (readings d) rows\<rparr>))"

text \<open>
  What one pass of the \<open>while\<close> loop reads from its environment: the clock, the generated
  values, and whether the write fails.
\<close>

record 'v tick_env =
  now_ms :: int
  values_at :: "string \<Rightarrow> string \<Rightarrow> 'v"
  write_fault :: "error option"

datatype worker_exit = StopObserved | Raised error

text \<open>
  The \<open>while not self._stop.is_set()\<close> loop. The list holds one environment per pass made
  before the stop event is seen; an exception leaves the loop, and the thread, at once.
\<close>

fun run_ticks :: "string list \<Rightarrow> string list \<Rightarrow> 'v tick_env list \<Rightarrow> 'v db \<Rightarrow> worker_exit \<times> 'v db" where
  "run_ticks ms ks [] d = (StopObserved, d)"
| "run_ticks ms ks (t # ts) d =
    (case append_readings (write_fault t) d (tick_rows ms ks (now_ms t) (values_at t)) of
       Inl e \<Rightarrow> (Raised e, d)
     | Inr d' \<Rightarrow> run_ticks ms ks ts d')"

definition run_loop :: "'v tick_env list \<Rightarrow> 'v db \<Rightarrow> worker_exit \<times> 'v db" where
  "run_loop ticks d = run_ticks (map m_machine_id (machines d)) (map k_metric_key (metrics d)) ticks d"

section \<open>simulator.py: start, stop, is_running\<close>

text \<open>
  The fields of \<open>TelemetrySimulator\<close> that the control calls touch. Each call runs under
  \<open>self._lock\<close>, so a call is one step on this state. \<open>alive\<close> and \<open>spawned\<close> belong to the
  thread runtime: the handles of the worker threads started and not yet finished, and the
  number of threads created so far (the next handle).
\<close>

record simulator =
  running :: bool
  stop_set :: bool
  thread :: "nat option"
  alive :: "nat list"
  spawned :: nat

definition init_simulator :: simulator where
  "init_simulator = \<lparr>running = False, stop_set = False, thread = None, alive = [], spawned = 0\<rparr>"

definition is_running :: "simulator \<Rightarrow> bool" where
  "is_running s = running s"

definition start :: "simulator \<Rightarrow> simulator" where
  "start s =
    (if running s then s
     else s\<lparr>running := True, stop_set := False, thread := Some (spawned s),
            alive := alive s @ [spawned s], spawned := Suc (spawned s)\<rparr>)"

text \<open>
  \<open>stop\<close> returns the new state and the handle it joined, if it joined one. \<open>exited\<close> says
  whether the worker leaves its loop within the 2.0 s of \<open>join(timeout=2.0)\<close>.
\<close>

definition stop :: "bool \<Rightarrow> simulator \<Rightarrow> simulator \<times> nat option" where
  "stop exited s =
    (if \<not> running s then (s, None)
     else
       let s' = s\<lparr>running := False, stop_set := True\<rparr> in
       (case thread s' of
          None \<Rightarrow> (s', None)
        | Some t \<Rightarrow> ((if exited then s'\<lparr>alive := removeAll t (alive s')\<rparr> else s'), Some t)))"

text \<open>
  What happens to a simulator, in sequence: the control calls, as the endpoints
  \<open>/simulate/start\<close> and \<open>/simulate/stop\<close> issue them, and a worker thread leaving
  \<open>_run_loop\<close> by itself (it saw the stop event after the join had timed out, or its
  write raised). The thread that ends touches no field of the simulator.
\<close>

datatype call = Start | Stop bool | Worker_ends nat

fun do_call :: "simulator \<Rightarrow> call \<Rightarrow> simulator" where
  "do_call s Start = start s"
| "do_call s (Stop exited) = fst (stop exited s)"
| "do_call s (Worker_ends t) = s\<lparr>alive := removeAll t (alive s)\<rparr>"

definition run_calls :: "call list \<Rightarrow> simulator \<Rightarrow> simulator" where
  "run_calls cs s = foldl do_call s cs"

section \<open>app.py: the query service\<close>

text \<open>
  \<open>get_latest\<close>: the existence check on \<open>machines\<close>, then the rows of \<open>latest_readings\<close> for
  the machine, \<open>ORDER BY metric_key\<close>.
\<close>

definition get_latest :: "'v db \<Rightarrow> string \<Rightarrow> error + 'v reading list" where
  "get_latest d mid =
    (if [m \<leftarrow> machines d. m_machine_id m = mid] = []
     then Inl (HTTPException 404 ''Unknown machine_id'')
     else Inr (sort_key metric_key [r \<leftarrow> latest_readings d. machine_id r = mid]))"

text \<open>
  \<open>Query(default, ge=.., le=..)\<close> on an integer parameter: the framework checks the
  bounds before the handler's body runs and answers 422 itself; an omitted parameter
  takes the default.
\<close>

definition Query_int :: "int \<Rightarrow> int \<Rightarrow> int \<Rightarrow> int option \<Rightarrow> error + int" where
  "Query_int dflt ge le given =
    (case given of
       None \<Rightarrow> Inr dflt
     | Some v \<Rightarrow> if ge \<le> v \<and> v \<le> le then Inr v else Inl RequestValidationError)"

text \<open>The \<open>WHERE\<close> clause that \<open>get_history\<close> builds from its optional bounds.\<close>

definition history_where :: "string \<Rightarrow> string \<Rightarrow> int option \<Rightarrow> int option \<Rightarrow> 'v reading \<Rightarrow> bool" where
  "history_where mid key start_ms end_ms r =
    (machine_id r = mid \<and> metric_key r = key
     \<and> (case start_ms of None \<Rightarrow> True | Some s \<Rightarrow> ts_ms r \<ge> s)
     \<and> (case end_ms of None \<Rightarrow> True | Some e \<Rightarrow> ts_ms r \<le> e))"

text \<open>SQLite's \<open>LIMIT n\<close>: a negative \<open>n\<close> means no limit.\<close>

definition sql_limit :: "int \<Rightarrow> 'a list \<Rightarrow> 'a list" where
  "sql_limit n xs = (if n < 0 then xs else take (nat n) xs)"

text \<open>
  The database takes an integer parameter as a signed 64-bit value: \<open>execute\<close> raises
  \<open>OverflowError\<close> for a Python int outside that range, which the framework answers
  with 500.
\<close>

definition fits_int64 :: "int \<Rightarrow> bool" where
  "fits_int64 v = (- (2 ^ 63) \<le> v \<and> v < 2 ^ 63)"

text \<open>
  The integer parameters of the statement, \<open>(*params, limit)\<close>: the bounds that are
  given, then the limit.
\<close>

definition history_params :: "int option \<Rightarrow> int option \<Rightarrow> int \<Rightarrow> int list" where
  "history_params start_ms end_ms limit =
    (case start_ms of None \<Rightarrow> [] | Some s \<Rightarrow> [s]) @ (case end_ms of None \<Rightarrow> [] | Some e \<Rightarrow> [e]) @ [limit]"

text \<open>
  The body of \<open>get_history\<close>: \<open>SELECT ts_ms, value ... ORDER BY ts_ms DESC LIMIT ?\<close>, then
  \<open>points.reverse()\<close>. A \<open>ReadingPoint\<close> is the pair of the two selected columns.
\<close>

definition history_body ::
  "'v db \<Rightarrow> string \<Rightarrow> string \<Rightarrow> int option \<Rightarrow> int option \<Rightarrow> int \<Rightarrow> error + (int \<times> 'v) list" where
  "history_body d mid key start_ms end_ms limit =
    (if \<not> list_all fits_int64 (history_params start_ms end_ms limit) then Inl OverflowError
     else
       let rows = sql_limit limit
                    (sort_key (\<lambda>r. - ts_ms r) (filter (history_where mid key start_ms end_ms) (readings d)));
           points = map (\<lambda>r. (ts_ms r, value_f r)) rows
       in Inr (rev points))"

definition get_history ::
  "'v db \<Rightarrow> string \<Rightarrow> string \<Rightarrow> int option \<Rightarrow> int option \<Rightarrow> int option \<Rightarrow> error + (int \<times> 'v) list" where
  "get_history d mid key start_ms end_ms limit =
    (case Query_int 500 1 5000 limit of
       Inl e \<Rightarrow> Inl e
     | Inr n \<Rightarrow> history_body d mid key start_ms end_ms n)"

section \<open>db.py: apply_migrations\<close>

text \<open>
  The database as \<open>apply_migrations\<close> sees it: the bookkeeping table \<open>schema_migrations\<close>
  (absent before the first run; its \<open>version\<close> column in insertion order, the \<open>applied_at\<close>
  time stamp left out) and everything else (\<open>contents\<close>). The migration scripts are the
  files of \<open>migrations/\<close>, which are not among the sources: a script is taken as what
  \<open>executescript\<close> does with it, a change of the contents that may fail.
\<close>

record 's store =
  schema_migrations :: "string list option"
  contents :: 's

type_synonym 's script = "'s \<Rightarrow> error + 's"

definition create_schema_migrations :: "'s store \<Rightarrow> 's store" where
  "create_schema_migrations st =
    (case schema_migrations st of None \<Rightarrow> st\<lparr>schema_migrations := Some []\<rparr> | Some vs \<Rightarrow> st)"

definition select_versions :: "'s store \<Rightarrow> string list" where
  "select_versions st = (case schema_migrations st of None \<Rightarrow> [] | Some vs \<Rightarrow> vs)"

text \<open>\<open>INSERT INTO schema_migrations(version)\<close>: \<open>version\<close> is the primary key.\<close>

definition insert_version :: "string \<Rightarrow> 's store \<Rightarrow> error + 's store" where
  "insert_version v st =
    (case schema_migrations st of
       None \<Rightarrow> Inl DatabaseError
     | Some vs \<Rightarrow> if v \<in> set vs then Inl DatabaseError
                 else Inr (st\<lparr>schema_migrations := Some (vs @ [v])\<rparr>))"

text \<open>\<open>MIGRATIONS_DIR.glob("*.sql")\<close> on a directory given as its (name, script) entries.\<close>

definition is_sql :: "string \<Rightarrow> bool" where
  "is_sql name = (drop (length name - 4) name = ''.sql'')"

definition glob_sql :: "(string \<times> 'a) list \<Rightarrow> (string \<times> 'a) list" where
  "glob_sql dir = filter (\<lambda>f. is_sql (fst f)) dir"

fun migration_loop :: "string list \<Rightarrow> (string \<times> 's script) list \<Rightarrow> 's store \<Rightarrow> error + 's store" where
  "migration_loop applied [] st = Inr st"
| "migration_loop applied (mf # mfs) st =
    (if fst mf \<in> set applied then migration_loop applied mfs st
     else
       (case snd mf (contents st) of
          Inl e \<Rightarrow> Inl e
        | Inr c \<Rightarrow>
            (case insert_version (fst mf) (st\<lparr>contents := c\<rparr>) of
               Inl e \<Rightarrow> Inl e
             | Inr st' \<Rightarrow> migration_loop applied mfs st')))"

definition apply_migrations :: "(string \<times> 's script) list \<Rightarrow> 's store \<Rightarrow> error + 's store" where
  "apply_migrations dir st =
    (let st1 = create_schema_migrations st;
         applied = select_versions st1;
         migration_files = sort_key fst (glob_sql dir)
     in migration_loop applied migration_files st1)"

section \<open>Invariants and sample inputs\<close>

text \<open>
  While the loop of every stopped worker ends within the join timeout and no worker
  ends by itself, the simulator has one live worker thread when it is running and none
  when it is stopped.
\<close>

definition one_worker :: "simulator \<Rightarrow> bool" where
  "one_worker s =
    (case thread s of
       None \<Rightarrow> \<not> running s \<and> alive s = []
     | Some t \<Rightarrow> alive s = (if running s then [t] else []))"

text \<open>Sample inputs of the tick loop: every generated value is 70.\<close>

definition example_values :: "string \<Rightarrow> string \<Rightarrow> int" where
  "example_values m k = 70"

definition example_tick :: "int \<Rightarrow> int tick_env" where
  "example_tick now = \<lparr>now_ms = now, values_at = example_values, write_fault = None\<rparr>"

definition faulty_tick :: "int \<Rightarrow> int tick_env" where
  "faulty_tick now = \<lparr>now_ms = now, values_at = example_values, write_fault = Some DatabaseError\<rparr>"

section \<open>Reference notions for the statements\<close>

text \<open>
  Running a list of scripts in order, stopping at the first failure: what "applying the
  migrations in order" means for the contents of the database.
\<close>

fun run_scripts :: "'s script list \<Rightarrow> 's \<Rightarrow> error + 's" where
  "run_scripts [] c = Inr c"
| "run_scripts (f # fs) c = (case f c of Inl e \<Rightarrow> Inl e | Inr c' \<Rightarrow> run_scripts fs c')"

text \<open>
  The migration files not yet applied, in ascending order of file name: the \<open>*.sql\<close>
  entries of the directory, sorted, without those whose name is in \<open>applied\<close>.
\<close>

definition pending :: "(string \<times> 'a) list \<Rightarrow> string list \<Rightarrow> (string \<times> 'a) list" where
  "pending dir applied = [f \<leftarrow> sort_key fst (glob_sql dir). fst f \<notin> set applied]"

text \<open>
  Follows the claims' words. \<open>bound_ok b\<close>: the bound, when given, is a signed 64-bit
  integer. \<open>in_window\<close>: a time stamp lies within the optional inclusive bounds.
  \<open>requested\<close>: the readings of a (machine, metric) pair whose time stamp lies within
  the bounds.
\<close>

definition bound_ok :: "int option \<Rightarrow> bool" where
  "bound_ok b = (case b of None \<Rightarrow> True | Some v \<Rightarrow> - 9223372036854775808 \<le> v \<and> v \<le> 9223372036854775807)"

definition in_window :: "int option \<Rightarrow> int option \<Rightarrow> int \<Rightarrow> bool" where
  "in_window start_ms end_ms t =
    ((case start_ms of None \<Rightarrow> True | Some lo \<Rightarrow> lo \<le> t) \<and> (case end_ms of None \<Rightarrow> True | Some hi \<Rightarrow> t \<le> hi))"

definition requested :: "string \<Rightarrow> string \<Rightarrow> int option \<Rightarrow> int option \<Rightarrow> 'v reading list \<Rightarrow> 'v reading list" where
  "requested mid key start_ms end_ms rs =
    [r \<leftarrow> rs. machine_id r = mid \<and> metric_key r = key \<and> in_window start_ms end_ms (ts_ms r)]"

text \<open>
  Further sample inputs: a directory of migrations; a database whose catalog had one
  machine and two metrics during two ticks and was seeded in full afterwards; the seeded
  database after two ticks, and after five ticks.
\<close>

definition create_table :: "string \<Rightarrow> string list script" where
  "create_table name c = (if name \<in> set c then Inl DatabaseError else Inr (c @ [name]))"

definition sample_migrations :: "(string \<times> string list script) list" where
  "sample_migrations =
    [(''002_latest.sql'', create_table ''latest_readings''),
     (''README.md'', create_table ''readme''),
     (''001_init.sql'', create_table ''readings'')]"

definition small_catalog_db :: "int db" where
  "small_catalog_db = \<lparr>machines = take 1 seed_machines, metrics = take 2 seed_metrics, readings = []\<rparr>"

definition grown_catalog_db :: "int db" where
  "grown_catalog_db = seed (snd (run_loop [example_tick 1000, example_tick 1500] small_catalog_db))"

definition two_tick_db :: "int db" where
  "two_tick_db = snd (run_loop [example_tick 1000, example_tick 1500] (seed empty_db))"

definition sample_history_db :: "int db" where
  "sample_history_db = snd (run_loop (map example_tick [1000, 1500, 1200, 1100, 1300]) (seed empty_db))"

section \<open>The generator's tick\<close>

lemma map_ts_tick_rows:
  "map ts_ms (tick_rows ms ks now vf) = replicate (length ms * length ks) now"
proof (induction ms)
  case Nil
  show ?case by (simp add: tick_rows_def)
next
  case (Cons m ms)
  have "map ts_ms (tick_rows (m # ms) ks now vf)
      = replicate (length ks) now @ map ts_ms (tick_rows ms ks now vf)"
    by (simp add: tick_rows_def comp_def map_replicate_const)
  then show ?case using Cons by (simp add: replicate_add)
qed

lemma pairs_tick_rows:
  "map (\<lambda>r. (machine_id r, metric_key r)) (tick_rows ms ks now vf) = List.product ms ks"
  by (induction ms) (simp_all add: tick_rows_def comp_def)

text \<open>
  Claim C8. Within one tick every reading produced carries the same \<open>ts_ms\<close>: the list
  of time stamps of the tick's rows is the clock value read at the head of the pass,
  repeated once per row, and the rows are one per (machine, metric) pair, machines in
  the outer loop.
\<close>

theorem tick_shares_one_timestamp:
  "map ts_ms (tick_rows ms ks now vf) = replicate (length ms * length ks) now
   \<and> map (\<lambda>r. (machine_id r, metric_key r)) (tick_rows ms ks now vf) = List.product ms ks"
  by (simp add: map_ts_tick_rows pairs_tick_rows)

section \<open>Appending readings\<close>

lemmas sample_defs = seed_def empty_db_def seed_machines_def seed_metrics_def
  executemany_insert_or_ignore_def insert_or_ignore_def

lemmas tick_defs = run_loop_def append_readings_def tick_rows_def example_tick_def faulty_tick_def
  reading_key_def

lemma find_append_case:
  "find P (xs @ ys) = (case find P xs of None \<Rightarrow> find P ys | Some x \<Rightarrow> Some x)"
  by (induction xs) simp_all

lemma find_insert_or_ignore:
  "find (\<lambda>x. key x = k) (insert_or_ignore key rows r) =
    (case find (\<lambda>x. key x = k) rows of Some x \<Rightarrow> Some x | None \<Rightarrow> if key r = k then Some r else None)"
proof (cases "key r \<in> set (map key rows)")
  case True
  have "key r \<noteq> k" if "find (\<lambda>x. key x = k) rows = None"
    using that True by (auto simp: find_None_iff)
  then show ?thesis
    using True by (simp add: insert_or_ignore_def split: option.splits)
next
  case False
  then show ?thesis
    by (simp add: insert_or_ignore_def find_append_case split: option.splits)
qed

lemma find_executemany:
  "find (\<lambda>x. key x = k) (executemany_insert_or_ignore key rows batch) =
    (case find (\<lambda>x. key x = k) rows of Some x \<Rightarrow> Some x | None \<Rightarrow> find (\<lambda>x. key x = k) batch)"
  unfolding executemany_insert_or_ignore_def
proof (induction batch arbitrary: rows)
  case Nil
  show ?case by (simp split: option.splits)
next
  case (Cons r batch)
  show ?case
    by (simp add: Cons.IH find_insert_or_ignore split: option.splits)
qed

lemma distinct_insert_or_ignore:
  "distinct (map key rows) \<Longrightarrow> distinct (map key (insert_or_ignore key rows r))"
  by (simp add: insert_or_ignore_def)

lemma distinct_executemany:
  "distinct (map key rows) \<Longrightarrow> distinct (map key (executemany_insert_or_ignore key rows batch))"
  unfolding executemany_insert_or_ignore_def
  by (induction batch arbitrary: rows) (simp_all add: distinct_insert_or_ignore)

lemma executemany_all_present:
  "set (map key batch) \<subseteq> set (map key rows) \<Longrightarrow> executemany_insert_or_ignore key rows batch = rows"
  unfolding executemany_insert_or_ignore_def
  by (induction batch arbitrary: rows) (simp_all add: insert_or_ignore_def)

text \<open>
  Claim C6. Appending readings whose key (machine_id, metric_key, ts_ms) is already
  stored raises nothing and changes nothing. On a table with unique keys, a write that
  the database does not fail returns normally; the keys stay unique; the row stored
  under any key \<open>k\<close> afterwards is the row that was stored before, if there was one, and
  otherwise the first row of the batch with that key, whatever values later rows with
  the same key carry; and a batch made of stored keys only leaves the database as it was.
\<close>

theorem duplicate_reading_is_ignored:
  assumes "distinct (map reading_key (readings d))"
  shows "\<exists>d'. append_readings None d batch = Inr d'
           \<and> distinct (map reading_key (readings d'))
           \<and> find (\<lambda>r. reading_key r = k) (readings d') =
               (case find (\<lambda>r. reading_key r = k) (readings d) of
                  Some r \<Rightarrow> Some r
                | None \<Rightarrow> find (\<lambda>r. reading_key r = k) batch)
           \<and> (set (map reading_key batch) \<subseteq> set (map reading_key (readings d)) \<longrightarrow> d' = d)"
  using assms
  by (simp add: append_readings_def distinct_executemany find_executemany executemany_all_present)

theorem duplicate_reading_is_ignored_witness:
  "distinct (map reading_key (readings (snd (run_loop [example_tick 1000] (seed empty_db)))))
   \<and> append_readings None (snd (run_loop [example_tick 1000] (seed empty_db)))
        [\<lparr>machine_id = ''m-001'', metric_key = ''temperature'', ts_ms = 1000, value_f = 99\<rparr>]
      = Inr (snd (run_loop [example_tick 1000] (seed empty_db)))"
proof -
  let ?d = "snd (run_loop [example_tick 1000] (seed empty_db))"
  let ?b = "[\<lparr>machine_id = ''m-001'', metric_key = ''temperature'', ts_ms = 1000, value_f = 99::int\<rparr>]"
  have h: "distinct (map reading_key (readings ?d))"
    by (simp add: tick_defs sample_defs)
  have sub: "set (map reading_key ?b) \<subseteq> set (map reading_key (readings ?d))"
    by (simp add: tick_defs sample_defs)
  from duplicate_reading_is_ignored [OF h, of ?b "(''m-001'', ''temperature'', 1000)"] sub
  have "append_readings None ?d ?b = Inr ?d" by blast
  with h show ?thesis by simp
qed

section \<open>A failing write\<close>

lemma run_ticks_append:
  "run_ticks ms ks (pre @ rest) d =
    (case run_ticks ms ks pre d of
       (StopObserved, d') \<Rightarrow> run_ticks ms ks rest d'
     | (Raised e, d') \<Rightarrow> (Raised e, d'))"
  by (induction pre arbitrary: d) (simp_all split: sum.splits)

lemma run_ticks_no_fault:
  "\<forall>t \<in> set pre. write_fault t = None \<Longrightarrow> fst (run_ticks ms ks pre d) = StopObserved"
  by (induction pre arbitrary: d) (simp_all add: append_readings_def)

text \<open>
  Claim C4, as stated, fails: \<open>_run_loop\<close> has no exception handler, so a write that
  fails ends the loop. With a first pass whose write fails and a second pass whose write
  would succeed, the worker leaves with the exception and the second pass never runs.
\<close>

theorem tick_after_fault_counterexample:
  "run_loop [faulty_tick 1000, example_tick 1500] (seed empty_db) = (Raised DatabaseError, seed empty_db)
   \<and> run_loop [faulty_tick 1000, example_tick 1500] (seed empty_db)
       \<noteq> run_loop [example_tick 1500] (seed empty_db)"
  by (simp add: tick_defs sample_defs)

text \<open>
  Claim C4, amended. If the write of one tick fails, after ticks whose writes succeeded,
  the exception leaves the tick loop: the worker ends with it, the store holds what the
  earlier ticks wrote and nothing of the failed tick, and no later tick runs.
\<close>

theorem write_fault_ends_loop:
  assumes "\<forall>t \<in> set pre. write_fault t = None"
      and "write_fault t = Some e"
  shows "run_loop (pre @ t # post) d = (Raised e, snd (run_loop pre d))"
proof -
  let ?ms = "map m_machine_id (machines d)" and ?ks = "map k_metric_key (metrics d)"
  obtain d' where pre: "run_ticks ?ms ?ks pre d = (StopObserved, d')"
    using run_ticks_no_fault [OF assms(1), of ?ms ?ks d] by (cases "run_ticks ?ms ?ks pre d") simp
  have "run_ticks ?ms ?ks (t # post) d' = (Raised e, d')"
    using assms(2) by (simp add: append_readings_def)
  then show ?thesis
    by (simp add: run_loop_def run_ticks_append pre)
qed

theorem write_fault_ends_loop_witness:
  "run_loop [example_tick 500, faulty_tick 1000, example_tick 1500] (seed empty_db)
     = (Raised DatabaseError, snd (run_loop [example_tick 500] (seed empty_db)))"
  using write_fault_ends_loop [of "[example_tick 500]" "faulty_tick 1000" DatabaseError "[example_tick 1500]" "seed empty_db"]
  by (simp add: example_tick_def faulty_tick_def)

section \<open>Starting and stopping the generator\<close>

lemma start_when_running: "running s \<Longrightarrow> start s = s"
  by (simp add: start_def)

lemma stop_when_stopped: "\<not> running s \<Longrightarrow> stop exited s = (s, None)"
  by (simp add: stop_def)

lemma running_start: "running (start s)"
  by (simp add: start_def)

lemma running_stop: "\<not> running (fst (stop exited s))"
  by (simp add: stop_def Let_def split: option.splits)

lemma one_worker_init: "one_worker init_simulator"
  by (simp add: one_worker_def init_simulator_def)

lemma one_worker_start: "one_worker s \<Longrightarrow> one_worker (start s)"
  by (cases "thread s") (auto simp: one_worker_def start_def)

lemma one_worker_stop: "one_worker s \<Longrightarrow> one_worker (fst (stop True s))"
  by (cases "thread s") (auto simp: one_worker_def stop_def Let_def)

lemma one_worker_run_calls:
  "\<forall>c \<in> set cs. c = Start \<or> c = Stop True \<Longrightarrow> one_worker s \<Longrightarrow> one_worker (run_calls cs s)"
  unfolding run_calls_def
proof (induction cs arbitrary: s)
  case Nil
  then show ?case by simp
next
  case (Cons c cs)
  have "c = Start \<or> c = Stop True" using Cons.prems(1) by simp
  then have "one_worker (do_call s c)"
    using Cons.prems(2) by (auto simp: one_worker_start one_worker_stop)
  then show ?case using Cons by simp
qed

lemma one_worker_count: "one_worker s \<Longrightarrow> length (alive s) = (if running s then 1 else 0)"
  by (cases "thread s") (auto simp: one_worker_def)

text \<open>
  Claim C7, as stated, fails in its part "leaves exactly one active worker". A \<open>stop\<close>
  whose join times out leaves its worker alive; the next \<open>start\<close> clears the stop event
  and spawns a second worker, so the simulator is running, \<open>start\<close> is a no-op, and two
  workers are live. A worker that ends by itself (its write raised) leaves \<open>_running\<close>
  true: the simulator is running, \<open>start\<close> is a no-op, and no worker is live.
\<close>

theorem start_on_running_counterexample:
  "is_running (run_calls [Start, Stop False, Start] init_simulator)
   \<and> start (run_calls [Start, Stop False, Start] init_simulator) = run_calls [Start, Stop False, Start] init_simulator
   \<and> alive (start (run_calls [Start, Stop False, Start] init_simulator)) = [0, 1]
   \<and> is_running (run_calls [Start, Worker_ends 0] init_simulator)
   \<and> start (run_calls [Start, Worker_ends 0] init_simulator) = run_calls [Start, Worker_ends 0] init_simulator
   \<and> alive (start (run_calls [Start, Worker_ends 0] init_simulator)) = []"
  by (simp add: run_calls_def is_running_def start_def stop_def init_simulator_def)

text \<open>
  Claim C7, amended. Let \<open>s\<close> be the state after any sequence of \<open>start\<close> and \<open>stop\<close>
  calls and of workers ending by themselves, on a new simulator. If \<open>s\<close> is running,
  \<open>start\<close> changes nothing; if \<open>s\<close> is stopped, \<open>stop\<close> changes nothing and joins no
  thread (it returns at the check). After \<open>start\<close>, \<open>is_running\<close> is true; after \<open>stop\<close>,
  \<open>is_running\<close> is false; a second \<open>start\<close> or \<open>stop\<close> in a row changes nothing. When
  the sequence holds only \<open>start\<close> calls and \<open>stop\<close> calls whose worker ended within the
  join timeout, there is exactly one live worker while \<open>s\<close> is running, none while it is
  stopped, and exactly one after \<open>start\<close>.
\<close>

theorem start_stop_idempotent:
  assumes "s = run_calls cs init_simulator"
  shows "(is_running s \<longrightarrow> start s = s)
       \<and> (\<not> is_running s \<longrightarrow> stop exited s = (s, None))
       \<and> is_running (start s)
       \<and> \<not> is_running (fst (stop exited s))
       \<and> start (start s) = start s
       \<and> stop exited' (fst (stop exited s)) = (fst (stop exited s), None)
       \<and> ((\<forall>c \<in> set cs. c = Start \<or> c = Stop True) \<longrightarrow>
            length (alive s) = (if is_running s then 1 else 0) \<and> length (alive (start s)) = 1)"
proof -
  have count: "length (alive s) = (if is_running s then 1 else 0) \<and> length (alive (start s)) = 1"
    if ok: "\<forall>c \<in> set cs. c = Start \<or> c = Stop True"
  proof -
    have inv: "one_worker s"
      using assms ok by (simp add: one_worker_run_calls one_worker_init)
    have "length (alive (start s)) = 1"
      using one_worker_count [OF one_worker_start [OF inv]] by (simp add: running_start)
    then show ?thesis
      using one_worker_count [OF inv] by (simp add: is_running_def)
  qed
  have noop: "(is_running s \<longrightarrow> start s = s) \<and> (\<not> is_running s \<longrightarrow> stop exited s = (s, None))"
    by (simp add: is_running_def start_when_running stop_when_stopped)
  have flag: "is_running (start s) \<and> \<not> is_running (fst (stop exited s))"
    by (simp add: is_running_def running_start running_stop)
  have twice: "start (start s) = start s \<and> stop exited' (fst (stop exited s)) = (fst (stop exited s), None)"
    by (simp add: start_when_running stop_when_stopped running_start running_stop)
  show ?thesis
    using count noop flag twice by simp
qed

theorem start_stop_idempotent_witness:
  "start (run_calls [Start, Start] init_simulator) = run_calls [Start, Start] init_simulator
   \<and> alive (run_calls [Start, Start] init_simulator) = [0]
   \<and> stop False (run_calls [Start, Stop True] init_simulator) = (run_calls [Start, Stop True] init_simulator, None)
   \<and> alive (run_calls [Start, Stop True] init_simulator) = []"
proof -
  have a: "\<forall>c \<in> set [Start, Start]. c = Start \<or> c = Stop True" by simp
  have b: "\<forall>c \<in> set [Start, Stop True]. c = Start \<or> c = Stop True" by simp
  have ra: "is_running (run_calls [Start, Start] init_simulator)"
    by (simp add: run_calls_def is_running_def start_def init_simulator_def)
  have rb: "\<not> is_running (run_calls [Start, Stop True] init_simulator)"
    by (simp add: run_calls_def is_running_def running_stop)
  have "length (alive (run_calls [Start, Start] init_simulator)) = 1"
    using start_stop_idempotent [OF refl, of "[Start, Start]"] a ra by simp
  moreover have "alive (run_calls [Start, Start] init_simulator) = [0]"
    by (simp add: run_calls_def start_def init_simulator_def)
  moreover have "alive (run_calls [Start, Stop True] init_simulator) = []"
    using start_stop_idempotent [OF refl, of "[Start, Stop True]"] b rb by simp
  ultimately show ?thesis
    using start_stop_idempotent [OF refl, of "[Start, Start]" False]
      start_stop_idempotent [OF refl, of "[Start, Stop True]" False] ra rb
    by simp
qed

section \<open>The query service\<close>

lemma machine_filter_empty:
  "([m \<leftarrow> ms. m_machine_id m = mid] = []) = (mid \<notin> set (map m_machine_id ms))"
  by (auto simp: filter_empty_conv)

text \<open>
  Claim C9. A history request whose \<open>limit\<close> lies outside [1, 5000] is rejected with the
  framework's validation error (422), whatever the store holds, so no query runs; the
  answer is not that of the request with the limit clamped into the range. A request
  without \<open>limit\<close> is the request with \<open>limit = 500\<close>.
\<close>

theorem limit_out_of_range_rejected:
  assumes "n < 1 \<or> 5000 < n"
  shows "get_history d mid key start_ms end_ms (Some n) = Inl RequestValidationError
       \<and> get_history d mid key start_ms end_ms (Some n)
           \<noteq> get_history d mid key start_ms end_ms (Some (max 1 (min 5000 n)))
       \<and> get_history d mid key start_ms end_ms None = get_history d mid key start_ms end_ms (Some 500)"
proof -
  have "get_history d mid key start_ms end_ms (Some (max 1 (min 5000 n))) \<noteq> Inl RequestValidationError"
    by (simp add: get_history_def Query_int_def history_body_def Let_def)
  then show ?thesis
    using assms by (auto simp: get_history_def Query_int_def)
qed

theorem limit_out_of_range_rejected_witness:
  "get_history (seed (empty_db :: int db)) ''m-001'' ''temperature'' None None (Some 0) = Inl RequestValidationError
   \<and> get_history (seed (empty_db :: int db)) ''m-001'' ''temperature'' None None (Some 5001) = Inl RequestValidationError"
  using limit_out_of_range_rejected [of 0 "seed (empty_db :: int db)" "''m-001''" "''temperature''" None None]
    limit_out_of_range_rejected [of 5001 "seed (empty_db :: int db)" "''m-001''" "''temperature''" None None]
  by simp

section \<open>The latest readings\<close>

text \<open>
  Two properties of the store that \<open>seed\<close> and the tick loop keep: the keys of the
  readings are unique, and every reading belongs to a machine of the catalog (the loop
  writes rows for the machines it read from \<open>machines\<close> only, and nothing deletes a
  machine).
\<close>

lemma set_executemany:
  "set (executemany_insert_or_ignore key rows batch) \<subseteq> set rows \<union> set batch"
  unfolding executemany_insert_or_ignore_def
proof (induction batch arbitrary: rows)
  case Nil
  show ?case by simp
next
  case (Cons r batch)
  have "set (insert_or_ignore key rows r) \<subseteq> set rows \<union> {r}"
    by (simp add: insert_or_ignore_def subset_insertI)
  then show ?case using Cons.IH [of "insert_or_ignore key rows r"] by auto
qed

lemma tick_rows_machines: "r \<in> set (tick_rows ms ks now vf) \<Longrightarrow> machine_id r \<in> set ms"
  by (auto simp: tick_rows_def)

lemma run_ticks_invariants:
  assumes "distinct (map reading_key (readings d))"
      and "machine_id ` set (readings d) \<subseteq> set ms"
  shows "distinct (map reading_key (readings (snd (run_ticks ms ks ticks d))))
       \<and> machine_id ` set (readings (snd (run_ticks ms ks ticks d))) \<subseteq> set ms
       \<and> machines (snd (run_ticks ms ks ticks d)) = machines d
       \<and> metrics (snd (run_ticks ms ks ticks d)) = metrics d"
  using assms
proof (induction ticks arbitrary: d)
  case Nil
  then show ?case by simp
next
  case (Cons t ticks)
  show ?case
  proof (cases "write_fault t")
    case (Some e)
    then show ?thesis using Cons.prems by (simp add: append_readings_def)
  next
    case None
    let ?rows = "tick_rows ms ks (now_ms t) (values_at t)"
    let ?d' = "d\<lparr>readings := executemany_insert_or_ignore reading_key (readings d) ?rows\<rparr>"
    have step: "run_ticks ms ks (t # ticks) d = run_ticks ms ks ticks ?d'"
      using None by (simp add: append_readings_def)
    have d1: "distinct (map reading_key (readings ?d'))"
      using Cons.prems(1) by (simp add: distinct_executemany)
    have "set (readings ?d') \<subseteq> set (readings d) \<union> set ?rows"
      using set_executemany [of reading_key "readings d" ?rows] by simp
    then have d2: "machine_id ` set (readings ?d') \<subseteq> set ms"
      using Cons.prems(2) tick_rows_machines [of _ ms ks "now_ms t" "values_at t"] by blast
    show ?thesis
      unfolding step using Cons.IH [OF d1 d2] by simp
  qed
qed

lemma run_loop_invariants:
  assumes "distinct (map reading_key (readings d))"
      and "machine_id ` set (readings d) \<subseteq> set (map m_machine_id (machines d))"
  shows "distinct (map reading_key (readings (snd (run_loop ticks d))))"
    and "machine_id ` set (readings (snd (run_loop ticks d))) \<subseteq> set (map m_machine_id (machines (snd (run_loop ticks d))))"
  using run_ticks_invariants [OF assms, of "map k_metric_key (metrics d)" ticks]
  by (simp_all add: run_loop_def)

lemma executemany_keeps_rows: "set rows \<subseteq> set (executemany_insert_or_ignore key rows batch)"
  unfolding executemany_insert_or_ignore_def
proof (induction batch arbitrary: rows)
  case Nil
  show ?case by simp
next
  case (Cons r batch)
  have "set rows \<subseteq> set (insert_or_ignore key rows r)"
    by (auto simp: insert_or_ignore_def)
  then show ?case using Cons.IH [of "insert_or_ignore key rows r"] by auto
qed

lemma seed_invariants:
  assumes "distinct (map reading_key (readings d))"
      and "machine_id ` set (readings d) \<subseteq> set (map m_machine_id (machines d))"
  shows "distinct (map reading_key (readings (seed d)))"
    and "machine_id ` set (readings (seed d)) \<subseteq> set (map m_machine_id (machines (seed d)))"
proof -
  show "distinct (map reading_key (readings (seed d)))"
    using assms(1) by (simp add: seed_def)
  have "set (machines d) \<subseteq> set (machines (seed d))"
    using executemany_keeps_rows [of "machines d" m_machine_id seed_machines] by (simp add: seed_def)
  then have "set (map m_machine_id (machines d)) \<subseteq> set (map m_machine_id (machines (seed d)))"
    by auto
  then show "machine_id ` set (readings (seed d)) \<subseteq> set (map m_machine_id (machines (seed d)))"
    using assms(2) by (auto simp: seed_def)
qed

lemma exists_latest:
  assumes "r0 \<in> set rs"
  shows "\<exists>r \<in> set rs. machine_id r = machine_id r0 \<and> metric_key r = metric_key r0
           \<and> (\<forall>r' \<in> set rs. machine_id r' = machine_id r0 \<and> metric_key r' = metric_key r0 \<longrightarrow> ts_ms r' \<le> ts_ms r)"
proof -
  let ?P = "{r \<in> set rs. machine_id r = machine_id r0 \<and> metric_key r = metric_key r0}"
  have fin: "finite (ts_ms ` ?P)" by simp
  have ne: "ts_ms ` ?P \<noteq> {}" using assms by auto
  have "Max (ts_ms ` ?P) \<in> ts_ms ` ?P" using fin ne by (rule Max_in)
  then obtain r where r: "r \<in> ?P" and m: "ts_ms r = Max (ts_ms ` ?P)" by auto
  have "ts_ms r' \<le> ts_ms r" if "r' \<in> ?P" for r'
    using that fin m by (simp add: Max_ge)
  then show ?thesis using r by auto
qed

lemma filter_is_single:
  "distinct xs \<Longrightarrow> r \<in> set xs \<Longrightarrow> filter (\<lambda>x. x = r) xs = [r]"
proof (induction xs)
  case Nil
  then show ?case by simp
next
  case (Cons a xs)
  show ?case
  proof (cases "a = r")
    case True
    then have "r \<notin> set xs" using Cons.prems(1) by simp
    then have "filter (\<lambda>x. x = r) xs = []"
      by (auto simp: filter_empty_conv)
    then show ?thesis using True by simp
  next
    case False
    then have "r \<in> set xs" using Cons.prems(2) by simp
    moreover have "distinct xs" using Cons.prems(1) by simp
    ultimately have "filter (\<lambda>x. x = r) xs = [r]" by (rule Cons.IH [rotated])
    then show ?thesis using False by simp
  qed
qed

lemma filter_only:
  assumes "distinct xs" and "r \<in> set xs" and "Q r" and "\<And>x. x \<in> set xs \<Longrightarrow> Q x \<Longrightarrow> x = r"
  shows "filter Q xs = [r]"
proof -
  have "filter Q xs = filter (\<lambda>x. x = r) xs"
  proof (rule filter_cong [OF refl])
    fix x assume "x \<in> set xs"
    then show "Q x = (x = r)" using assms(3,4) by blast
  qed
  then show ?thesis using filter_is_single [OF assms(1,2)] by simp
qed

lemma same_key_same_reading:
  "distinct (map reading_key rs) \<Longrightarrow> x \<in> set rs \<Longrightarrow> y \<in> set rs \<Longrightarrow> reading_key x = reading_key y \<Longrightarrow> x = y"
  by (simp add: distinct_map inj_on_def)

lemma two_tick_keys:
  "map reading_key (readings two_tick_db) =
     [(''m-001'', ''temperature'', 1000), (''m-001'', ''pressure'', 1000), (''m-001'', ''vibration'', 1000),
      (''m-002'', ''temperature'', 1000), (''m-002'', ''pressure'', 1000), (''m-002'', ''vibration'', 1000),
      (''m-003'', ''temperature'', 1000), (''m-003'', ''pressure'', 1000), (''m-003'', ''vibration'', 1000),
      (''m-001'', ''temperature'', 1500), (''m-001'', ''pressure'', 1500), (''m-001'', ''vibration'', 1500),
      (''m-002'', ''temperature'', 1500), (''m-002'', ''pressure'', 1500), (''m-002'', ''vibration'', 1500),
      (''m-003'', ''temperature'', 1500), (''m-003'', ''pressure'', 1500), (''m-003'', ''vibration'', 1500)]"
  by (simp add: two_tick_db_def tick_defs sample_defs example_values_def)

lemma two_tick_machines:
  "map m_machine_id (machines two_tick_db) = [''m-001'', ''m-002'', ''m-003'']"
  by (simp add: two_tick_db_def tick_defs sample_defs)

lemma two_tick_latest:
  "get_latest two_tick_db ''m-002'' =
     Inr [\<lparr>machine_id = ''m-002'', metric_key = ''pressure'', ts_ms = 1500, value_f = 70\<rparr>,
          \<lparr>machine_id = ''m-002'', metric_key = ''temperature'', ts_ms = 1500, value_f = 70\<rparr>,
          \<lparr>machine_id = ''m-002'', metric_key = ''vibration'', ts_ms = 1500, value_f = 70\<rparr>]"
  by (simp add: two_tick_db_def tick_defs sample_defs example_values_def get_latest_def latest_readings_def)

lemma grown_catalog_readings:
  "readings grown_catalog_db =
    [\<lparr>machine_id = ''m-001'', metric_key = ''temperature'', ts_ms = 1000, value_f = 70\<rparr>,
     \<lparr>machine_id = ''m-001'', metric_key = ''pressure'', ts_ms = 1000, value_f = 70\<rparr>,
     \<lparr>machine_id = ''m-001'', metric_key = ''temperature'', ts_ms = 1500, value_f = 70\<rparr>,
     \<lparr>machine_id = ''m-001'', metric_key = ''pressure'', ts_ms = 1500, value_f = 70\<rparr>]"
  by (simp add: grown_catalog_db_def small_catalog_db_def tick_defs sample_defs example_values_def)

lemma grown_catalog_machines:
  "map m_machine_id (machines grown_catalog_db) = [''m-001'', ''m-002'', ''m-003'']"
  by (simp add: grown_catalog_db_def small_catalog_db_def tick_defs sample_defs)

text \<open>
  Claim C1. On a table with unique keys, for every machine of the catalog and every
  metric with at least one stored reading of that machine, the rows that \<open>get_latest\<close>
  returns for the machine hold exactly one row of that metric: a stored reading of the
  pair whose \<open>ts_ms\<close> no stored reading of the pair exceeds. The rows are ordered by
  \<open>metric_key\<close> and all belong to the machine. (A machine with a stored reading is a
  machine of the catalog in every state that \<open>seed\<close> and the tick loop reach.)
\<close>

theorem latest_is_max_reading:
  assumes "distinct (map reading_key (readings d))"
      and "mid \<in> set (map m_machine_id (machines d))"
      and "r0 \<in> set (readings d)" and "machine_id r0 = mid" and "metric_key r0 = key"
  shows "\<exists>rows r. get_latest d mid = Inr rows
           \<and> filter (\<lambda>x. metric_key x = key) rows = [r]
           \<and> r \<in> set (readings d) \<and> machine_id r = mid \<and> metric_key r = key
           \<and> (\<forall>r' \<in> set (readings d). machine_id r' = mid \<and> metric_key r' = key \<longrightarrow> ts_ms r' \<le> ts_ms r)
           \<and> sorted (map metric_key rows)
           \<and> (\<forall>x \<in> set rows. machine_id x = mid)"
proof -
  let ?L = "latest_readings d"
  let ?rows = "sort_key metric_key [x \<leftarrow> ?L. machine_id x = mid]"
  let ?Q = "\<lambda>x. machine_id x = mid \<and> metric_key x = key"
  have run: "get_latest d mid = Inr ?rows"
    using assms(2) by (simp add: get_latest_def machine_filter_empty)
  obtain r where r: "r \<in> set (readings d)" "machine_id r = mid" "metric_key r = key"
      and mx: "\<forall>r' \<in> set (readings d). machine_id r' = mid \<and> metric_key r' = key \<longrightarrow> ts_ms r' \<le> ts_ms r"
    using exists_latest [OF assms(3)] assms(4,5) by auto
  have inL: "r \<in> set ?L"
    using r mx by (simp add: latest_readings_def)
  have dL: "distinct ?L"
    using assms(1) by (simp add: latest_readings_def distinct_map)
  have uniq: "x = r" if x: "x \<in> set ?L" and q: "?Q x" for x
  proof -
    have xr: "x \<in> set (readings d)" using x by (simp add: latest_readings_def)
    have "ts_ms r \<le> ts_ms x" using x q r by (simp add: latest_readings_def)
    moreover have "ts_ms x \<le> ts_ms r" using mx xr q by simp
    ultimately have "reading_key x = reading_key r"
      using q r by (simp add: reading_key_def)
    then show "x = r"
      using assms(1) xr r(1) by (rule same_key_same_reading [rotated 3])
  qed
  have Qr: "?Q r" using r by simp
  have one: "filter ?Q ?L = [r]"
    using dL inL Qr uniq by (rule filter_only)
  have "filter (\<lambda>x. metric_key x = key) ?rows
      = sort_key metric_key (filter (\<lambda>x. metric_key x = key) [x \<leftarrow> ?L. machine_id x = mid])"
    by (rule filter_sort)
  also have "filter (\<lambda>x. metric_key x = key) [x \<leftarrow> ?L. machine_id x = mid] = filter ?Q ?L"
    by (simp add: conj_commute)
  finally have sel: "filter (\<lambda>x. metric_key x = key) ?rows = [r]"
    using one by simp
  have srt: "sorted (map metric_key ?rows)"
    by (rule sorted_sort_key)
  have mach: "\<forall>x \<in> set ?rows. machine_id x = mid"
    by simp
  show ?thesis
    by (rule exI [of _ ?rows], rule exI [of _ r]) (intro conjI run sel r mx srt mach)
qed

theorem latest_is_max_reading_witness:
  "distinct (map reading_key (readings two_tick_db))
   \<and> ''m-002'' \<in> set (map m_machine_id (machines two_tick_db))
   \<and> \<lparr>machine_id = ''m-002'', metric_key = ''temperature'', ts_ms = 1000, value_f = 70\<rparr>
         \<in> set (readings two_tick_db)
   \<and> get_latest two_tick_db ''m-002'' =
     Inr [\<lparr>machine_id = ''m-002'', metric_key = ''pressure'', ts_ms = 1500, value_f = 70\<rparr>,
          \<lparr>machine_id = ''m-002'', metric_key = ''temperature'', ts_ms = 1500, value_f = 70\<rparr>,
          \<lparr>machine_id = ''m-002'', metric_key = ''vibration'', ts_ms = 1500, value_f = 70\<rparr>]"
proof -
  let ?r0 = "\<lparr>machine_id = ''m-002'', metric_key = ''temperature'', ts_ms = 1000, value_f = 70::int\<rparr>"
  have u: "distinct (map reading_key (readings two_tick_db))"
    by (simp add: two_tick_keys)
  have m: "''m-002'' \<in> set (map m_machine_id (machines two_tick_db))"
    by (simp add: two_tick_machines)
  have r0: "?r0 \<in> set (readings two_tick_db)"
    by (simp add: two_tick_db_def tick_defs sample_defs example_values_def)
  obtain rows r where "get_latest two_tick_db ''m-002'' = Inr rows"
      and "filter (\<lambda>x. metric_key x = ''temperature'') rows = [r]"
      and "\<forall>r' \<in> set (readings two_tick_db).
             machine_id r' = ''m-002'' \<and> metric_key r' = ''temperature'' \<longrightarrow> ts_ms r' \<le> ts_ms r"
    using latest_is_max_reading [OF u m r0, of "''temperature''"] by auto
  then have "rows = [\<lparr>machine_id = ''m-002'', metric_key = ''pressure'', ts_ms = 1500, value_f = 70\<rparr>,
          \<lparr>machine_id = ''m-002'', metric_key = ''temperature'', ts_ms = 1500, value_f = 70\<rparr>,
          \<lparr>machine_id = ''m-002'', metric_key = ''vibration'', ts_ms = 1500, value_f = 70\<rparr>]"
    by (simp add: two_tick_latest)
  then show ?thesis using u m r0 two_tick_latest by simp
qed

text \<open>
  Claim C10. For a machine of the catalog with no stored reading, \<open>get_latest\<close> returns
  the empty list; and \<open>get_latest\<close> raises for a machine id exactly when the id is not in
  the catalog.
\<close>

theorem latest_of_known_machine_without_readings:
  assumes "mid \<in> set (map m_machine_id (machines d))"
      and "\<forall>r \<in> set (readings d). machine_id r \<noteq> mid"
  shows "get_latest d mid = Inr []
       \<and> ((\<exists>e. get_latest d mid' = Inl e) = (mid' \<notin> set (map m_machine_id (machines d))))"
proof -
  have "[r \<leftarrow> latest_readings d. machine_id r = mid] = []"
    using assms(2) by (simp add: filter_empty_conv latest_readings_def)
  moreover have "[m \<leftarrow> machines d. m_machine_id m = mid] \<noteq> []"
    using assms(1) by (simp add: machine_filter_empty)
  ultimately have "get_latest d mid = Inr []"
    by (simp add: get_latest_def)
  moreover have "(\<exists>e. get_latest d mid' = Inl e) = (mid' \<notin> set (map m_machine_id (machines d)))"
    by (simp only: get_latest_def machine_filter_empty) simp
  ultimately show ?thesis by simp
qed

theorem latest_of_known_machine_without_readings_witness:
  "''m-002'' \<in> set (map m_machine_id (machines grown_catalog_db))
   \<and> [r \<leftarrow> readings grown_catalog_db. machine_id r = ''m-002''] = []
   \<and> readings grown_catalog_db \<noteq> []
   \<and> get_latest grown_catalog_db ''m-002'' = Inr []
   \<and> get_latest grown_catalog_db ''m-404'' = Inl (HTTPException 404 ''Unknown machine_id'')"
proof -
  have a: "''m-002'' \<in> set (map m_machine_id (machines grown_catalog_db))"
    by (simp add: grown_catalog_machines)
  have b: "\<forall>r \<in> set (readings grown_catalog_db). machine_id r \<noteq> ''m-002''"
    by (simp add: grown_catalog_readings)
  have c: "get_latest grown_catalog_db ''m-404'' = Inl (HTTPException 404 ''Unknown machine_id'')"
    by (simp add: get_latest_def machine_filter_empty grown_catalog_machines)
  show ?thesis
    using latest_of_known_machine_without_readings [OF a b] a c by (simp add: grown_catalog_readings)
qed

section \<open>History\<close>

lemma desc_strict:
  "sorted_wrt (\<lambda>x y. f y \<le> f x) xs \<Longrightarrow> distinct (map f xs) \<Longrightarrow> sorted_wrt (\<lambda>x y. (f y :: int) < f x) xs"
proof (induction xs)
  case Nil
  show ?case by simp
next
  case (Cons a xs)
  have "f y < f a" if "y \<in> set xs" for y
  proof -
    have "f y \<le> f a" using Cons.prems(1) that by simp
    moreover have "f y \<noteq> f a" using Cons.prems(2) that by (auto simp: image_iff)
    ultimately show ?thesis by simp
  qed
  then show ?case using Cons by simp
qed

lemma sort_desc:
  "sorted_wrt (\<lambda>x y. ts_ms y \<le> ts_ms x) (sort_key (\<lambda>r. - ts_ms r) (xs :: 'v reading list))"
proof -
  have "sorted (map (\<lambda>r. - ts_ms r) (sort_key (\<lambda>r. - ts_ms r) xs))"
    by (rule sorted_sort_key)
  then show ?thesis by (simp add: sorted_map del: sorted_sort_key)
qed

lemma mset_take_drop: "mset (take n xs) + mset (drop n xs) = mset xs"
  using mset_append [of "take n xs" "drop n xs"] by simp

lemma where_is_requested:
  "filter (history_where mid key start_ms end_ms) rs = requested mid key start_ms end_ms rs"
  unfolding requested_def
  by (rule filter_cong [OF refl]) (simp add: history_where_def in_window_def split: option.splits)

lemma params_fit:
  assumes "1 \<le> n" and "n \<le> 5000"
  shows "list_all fits_int64 (history_params start_ms end_ms n) = (bound_ok start_ms \<and> bound_ok end_ms)"
proof -
  have "fits_int64 n" using assms by (simp add: fits_int64_def)
  moreover have "fits_int64 v = bound_ok (Some v)" for v
    by (auto simp: fits_int64_def bound_ok_def)
  moreover have "bound_ok None"
    by (simp add: bound_ok_def)
  ultimately show ?thesis
    by (cases start_ms; cases end_ms) (simp_all add: history_params_def)
qed

lemma Query_int_range: "Query_int 500 1 5000 limit = Inr n \<Longrightarrow> 1 \<le> n \<and> n \<le> 5000"
  by (auto simp: Query_int_def split: option.splits if_splits)

lemma requested_distinct_ts:
  assumes "distinct (map reading_key rs)"
  shows "distinct (map ts_ms (requested mid key lo hi rs))"
proof -
  let ?M = "requested mid key lo hi rs"
  have d: "distinct (map reading_key ?M)"
    unfolding requested_def using assms by (rule distinct_map_filter)
  have "inj_on ts_ms (set ?M)"
  proof (rule inj_onI)
    fix x y assume x: "x \<in> set ?M" and y: "y \<in> set ?M" and e: "ts_ms x = ts_ms y"
    have "reading_key x = reading_key y"
      using x y e by (simp add: reading_key_def requested_def)
    then show "x = y"
      using d x y by (simp add: distinct_map inj_on_def)
  qed
  moreover have "distinct ?M" using d by (simp add: distinct_map)
  ultimately show ?thesis by (simp add: distinct_map)
qed

lemma recent_sorted:
  fixes T D :: "'v reading list"
  assumes "sorted_wrt (\<lambda>x y. ts_ms y \<le> ts_ms x) (T @ D)"
  shows "sorted (map fst (rev (map (\<lambda>r. (ts_ms r, value_f r)) T)))"
    and "\<forall>p \<in> set (rev (map (\<lambda>r. (ts_ms r, value_f r)) T)). \<forall>q \<in> set (map (\<lambda>r. (ts_ms r, value_f r)) D). fst q \<le> fst p"
proof -
  have "sorted_wrt (\<lambda>x y. ts_ms y \<le> ts_ms x) T"
    using assms by (simp add: sorted_wrt_append)
  then have "sorted_wrt (\<lambda>x y. ts_ms x \<le> ts_ms y) (rev T)"
    by (simp add: sorted_wrt_rev)
  then have "sorted (map ts_ms (rev T))"
    by (simp add: sorted_map)
  moreover have "map fst (rev (map (\<lambda>r. (ts_ms r, value_f r)) T)) = map ts_ms (rev T)"
    by (simp add: rev_map comp_def)
  ultimately show "sorted (map fst (rev (map (\<lambda>r. (ts_ms r, value_f r)) T)))"
    by simp
  show "\<forall>p \<in> set (rev (map (\<lambda>r. (ts_ms r, value_f r)) T)). \<forall>q \<in> set (map (\<lambda>r. (ts_ms r, value_f r)) D). fst q \<le> fst p"
    using assms by (auto simp: sorted_wrt_append)
qed

lemma recent_strict:
  fixes T D :: "'v reading list"
  assumes "sorted_wrt (\<lambda>x y. ts_ms y < ts_ms x) (T @ D)"
  shows "sorted_wrt (<) (map fst (rev (map (\<lambda>r. (ts_ms r, value_f r)) T)))"
    and "\<forall>p \<in> set (rev (map (\<lambda>r. (ts_ms r, value_f r)) T)). \<forall>q \<in> set (map (\<lambda>r. (ts_ms r, value_f r)) D). fst q < fst p"
proof -
  have "sorted_wrt (\<lambda>x y. ts_ms y < ts_ms x) T"
    using assms by (simp add: sorted_wrt_append)
  then have "sorted_wrt (\<lambda>x y. ts_ms x < ts_ms y) (rev T)"
    by (simp add: sorted_wrt_rev)
  then have "sorted_wrt (<) (map ts_ms (rev T))"
    by (simp add: sorted_wrt_map)
  moreover have "map fst (rev (map (\<lambda>r. (ts_ms r, value_f r)) T)) = map ts_ms (rev T)"
    by (simp add: rev_map comp_def)
  ultimately show "sorted_wrt (<) (map fst (rev (map (\<lambda>r. (ts_ms r, value_f r)) T)))"
    by simp
  show "\<forall>p \<in> set (rev (map (\<lambda>r. (ts_ms r, value_f r)) T)). \<forall>q \<in> set (map (\<lambda>r. (ts_ms r, value_f r)) D). fst q < fst p"
    using assms by (auto simp: sorted_wrt_append)
qed

lemma history_overflow:
  assumes "Query_int 500 1 5000 limit = Inr n"
      and "\<not> (bound_ok start_ms \<and> bound_ok end_ms)"
  shows "get_history d mid key start_ms end_ms limit = Inl OverflowError"
proof -
  have "\<not> list_all fits_int64 (history_params start_ms end_ms n)"
    using params_fit [of n start_ms end_ms] Query_int_range [OF assms(1)] assms(2) by simp
  then show ?thesis
    using assms(1) by (simp add: get_history_def history_body_def)
qed

lemma history_most_recent:
  assumes "Query_int 500 1 5000 limit = Inr n"
      and "bound_ok start_ms" and "bound_ok end_ms"
  shows "\<exists>res omitted.
      get_history d mid key start_ms end_ms limit = Inr res
    \<and> mset res + mset omitted
        = mset (map (\<lambda>r. (ts_ms r, value_f r)) (requested mid key start_ms end_ms (readings d)))
    \<and> length res = min (nat n) (length (requested mid key start_ms end_ms (readings d)))
    \<and> sorted (map fst res)
    \<and> (\<forall>p \<in> set res. \<forall>q \<in> set omitted. fst q \<le> fst p)
    \<and> (distinct (map reading_key (readings d)) \<longrightarrow>
          sorted_wrt (<) (map fst res) \<and> (\<forall>p \<in> set res. \<forall>q \<in> set omitted. fst q < fst p))"
proof -
  let ?pt = "\<lambda>r :: 'a reading. (ts_ms r, value_f r)"
  let ?M = "requested mid key start_ms end_ms (readings d)"
  let ?S = "sort_key (\<lambda>r. - ts_ms r) ?M"
  let ?T = "take (nat n) ?S" and ?D = "drop (nat n) ?S"
  let ?res = "rev (map ?pt ?T)" and ?om = "map ?pt ?D"
  have n: "1 \<le> n" "n \<le> 5000"
    using Query_int_range [OF assms(1)] by simp_all
  have fit: "list_all fits_int64 (history_params start_ms end_ms n)"
    using params_fit [OF n, of start_ms end_ms] assms(2,3) by simp
  have run: "get_history d mid key start_ms end_ms limit = Inr ?res"
    using assms(1) n fit by (simp add: get_history_def history_body_def sql_limit_def where_is_requested)
  have "mset (map ?pt ?T) + mset (map ?pt ?D) = mset (map ?pt ?S)"
    using mset_take_drop [of "nat n" "map ?pt ?S"] by (simp add: take_map drop_map)
  then have ms: "mset ?res + mset ?om = mset (map ?pt ?M)"
    by simp
  have len: "length ?res = min (nat n) (length ?M)"
    by (simp add: min.commute)
  have desc: "sorted_wrt (\<lambda>x y. ts_ms y \<le> ts_ms x) (?T @ ?D)"
    using sort_desc [of ?M] by simp
  note srt = recent_sorted(1) [OF desc] and older = recent_sorted(2) [OF desc]
  have strict: "distinct (map reading_key (readings d)) \<longrightarrow>
      sorted_wrt (<) (map fst ?res) \<and> (\<forall>p \<in> set ?res. \<forall>q \<in> set ?om. fst q < fst p)"
  proof
    assume uniq: "distinct (map reading_key (readings d))"
    have "mset (map ts_ms ?S) = mset (map ts_ms ?M)" by simp
    then have "distinct (map ts_ms ?S)"
      using requested_distinct_ts [OF uniq, of mid key start_ms end_ms] mset_eq_imp_distinct_iff by blast
    then have "distinct (map ts_ms (?T @ ?D))" by simp
    then have sd: "sorted_wrt (\<lambda>x y. ts_ms y < ts_ms x) (?T @ ?D)"
      using desc by (intro desc_strict)
    show "sorted_wrt (<) (map fst ?res) \<and> (\<forall>p \<in> set ?res. \<forall>q \<in> set ?om. fst q < fst p)"
      using recent_strict(1) [OF sd] recent_strict(2) [OF sd] by (rule conjI)
  qed
  show ?thesis
    by (rule exI [of _ ?res], rule exI [of _ ?om]) (intro conjI run ms len srt older strict)
qed

lemma requested_only:
  assumes "p \<in> set (map (\<lambda>r. (ts_ms r, value_f r)) (requested mid key start_ms end_ms rs))"
  shows "\<exists>r \<in> set rs. p = (ts_ms r, value_f r) \<and> machine_id r = mid \<and> metric_key r = key
          \<and> (\<forall>lo. start_ms = Some lo \<longrightarrow> lo \<le> fst p) \<and> (\<forall>hi. end_ms = Some hi \<longrightarrow> fst p \<le> hi)"
proof -
  obtain r where r: "r \<in> set (requested mid key start_ms end_ms rs)" and p: "p = (ts_ms r, value_f r)"
    using assms by auto
  have "r \<in> set rs" and "machine_id r = mid" and "metric_key r = key" and "in_window start_ms end_ms (ts_ms r)"
    using r by (simp_all add: requested_def)
  then show ?thesis
    using p by (intro bexI [of _ r]) (auto simp: in_window_def)
qed

lemma sample_history_machines:
  "map m_machine_id (machines sample_history_db) = [''m-001'', ''m-002'', ''m-003'']"
  by (simp add: sample_history_db_def tick_defs sample_defs)

lemma sample_history_pressure:
  "requested ''m-001'' ''pressure'' None None (readings sample_history_db) =
    [\<lparr>machine_id = ''m-001'', metric_key = ''pressure'', ts_ms = 1000, value_f = 70\<rparr>,
     \<lparr>machine_id = ''m-001'', metric_key = ''pressure'', ts_ms = 1500, value_f = 70\<rparr>,
     \<lparr>machine_id = ''m-001'', metric_key = ''pressure'', ts_ms = 1200, value_f = 70\<rparr>,
     \<lparr>machine_id = ''m-001'', metric_key = ''pressure'', ts_ms = 1100, value_f = 70\<rparr>,
     \<lparr>machine_id = ''m-001'', metric_key = ''pressure'', ts_ms = 1300, value_f = 70\<rparr>]"
  by (simp add: sample_history_db_def tick_defs sample_defs requested_def in_window_def example_values_def)

lemma sample_history_eval:
  "get_history sample_history_db ''m-001'' ''pressure'' (Some 1100) (Some 1300) (Some 2) = Inr [(1200, 70), (1300, 70)]"
  "get_history sample_history_db ''m-001'' ''pressure'' (Some 1100) (Some 1300) (Some 5)
     = Inr [(1100, 70), (1200, 70), (1300, 70)]"
  "get_history sample_history_db ''m-001'' ''pressure'' None None (Some 2) = Inr [(1300, 70), (1500, 70)]"
  "get_history sample_history_db ''m-001'' ''pressure'' None (Some 9223372036854775808) (Some 2) = Inl OverflowError"
  by (simp_all add: sample_history_db_def tick_defs sample_defs get_history_def Query_int_def history_body_def
      sql_limit_def history_where_def example_values_def history_params_def fits_int64_def)

text \<open>
  Claim C2. Take a history request with a limit \<open>n\<close> in [1, 5000]. When the bounds that
  are given are signed 64-bit integers, the request succeeds with a list \<open>res\<close> such
  that, with \<open>omitted\<close> the requested points left out: \<open>res\<close> and \<open>omitted\<close> together are
  the (ts_ms, value) points of the stored readings of the given machine and metric whose
  \<open>ts_ms\<close> lies within the inclusive bounds; every point of \<open>res\<close> belongs to such a
  reading; \<open>res\<close> has \<open>n\<close> elements, or all the requested ones when there are fewer;
  \<open>res\<close> is ascending in \<open>ts_ms\<close>; and no omitted point is more recent than a returned
  one. On a table with unique keys the order is strict, and every omitted point is older
  than every returned one. When a bound is not a signed 64-bit integer there is no
  result: the request ends with \<open>OverflowError\<close>.
\<close>

theorem history_returns_most_recent:
  assumes "1 \<le> n" and "n \<le> 5000"
  shows "(bound_ok start_ms \<and> bound_ok end_ms \<longrightarrow>
      (\<exists>res omitted.
          get_history d mid key start_ms end_ms (Some n) = Inr res
        \<and> mset res + mset omitted
            = mset (map (\<lambda>r. (ts_ms r, value_f r)) (requested mid key start_ms end_ms (readings d)))
        \<and> (\<forall>p \<in> set res. \<exists>r \<in> set (readings d). p = (ts_ms r, value_f r)
              \<and> machine_id r = mid \<and> metric_key r = key
              \<and> (\<forall>lo. start_ms = Some lo \<longrightarrow> lo \<le> fst p) \<and> (\<forall>hi. end_ms = Some hi \<longrightarrow> fst p \<le> hi))
        \<and> length res = min (nat n) (length (requested mid key start_ms end_ms (readings d)))
        \<and> sorted (map fst res)
        \<and> (\<forall>p \<in> set res. \<forall>q \<in> set omitted. fst q \<le> fst p)
        \<and> (distinct (map reading_key (readings d)) \<longrightarrow>
              sorted_wrt (<) (map fst res) \<and> (\<forall>p \<in> set res. \<forall>q \<in> set omitted. fst q < fst p))))
    \<and> (\<not> (bound_ok start_ms \<and> bound_ok end_ms) \<longrightarrow>
          get_history d mid key start_ms end_ms (Some n) = Inl OverflowError)"
proof -
  let ?pt = "\<lambda>r :: 'a reading. (ts_ms r, value_f r)"
  let ?M = "requested mid key start_ms end_ms (readings d)"
  have q: "Query_int 500 1 5000 (Some n) = Inr n"
    using assms by (simp add: Query_int_def)
  have ok: "\<exists>res omitted.
          get_history d mid key start_ms end_ms (Some n) = Inr res
        \<and> mset res + mset omitted = mset (map ?pt ?M)
        \<and> (\<forall>p \<in> set res. \<exists>r \<in> set (readings d). p = ?pt r
              \<and> machine_id r = mid \<and> metric_key r = key
              \<and> (\<forall>lo. start_ms = Some lo \<longrightarrow> lo \<le> fst p) \<and> (\<forall>hi. end_ms = Some hi \<longrightarrow> fst p \<le> hi))
        \<and> length res = min (nat n) (length ?M)
        \<and> sorted (map fst res)
        \<and> (\<forall>p \<in> set res. \<forall>q \<in> set omitted. fst q \<le> fst p)
        \<and> (distinct (map reading_key (readings d)) \<longrightarrow>
              sorted_wrt (<) (map fst res) \<and> (\<forall>p \<in> set res. \<forall>q \<in> set omitted. fst q < fst p))"
    if b: "bound_ok start_ms" "bound_ok end_ms"
  proof -
    obtain res omitted where run: "get_history d mid key start_ms end_ms (Some n) = Inr res"
      and ms: "mset res + mset omitted = mset (map ?pt ?M)"
      and len: "length res = min (nat n) (length ?M)"
      and srt: "sorted (map fst res)"
      and older: "\<forall>p \<in> set res. \<forall>q \<in> set omitted. fst q \<le> fst p"
      and strict: "distinct (map reading_key (readings d)) \<longrightarrow>
              sorted_wrt (<) (map fst res) \<and> (\<forall>p \<in> set res. \<forall>q \<in> set omitted. fst q < fst p)"
      using history_most_recent [OF q b, of d mid key] by blast
    have only: "\<forall>p \<in> set res. \<exists>r \<in> set (readings d). p = ?pt r
              \<and> machine_id r = mid \<and> metric_key r = key
              \<and> (\<forall>lo. start_ms = Some lo \<longrightarrow> lo \<le> fst p) \<and> (\<forall>hi. end_ms = Some hi \<longrightarrow> fst p \<le> hi)"
    proof
      fix p assume "p \<in> set res"
      then have "p \<in># mset res + mset omitted" by simp
      then have "p \<in> set (map ?pt ?M)" unfolding ms by simp
      then show "\<exists>r \<in> set (readings d). p = ?pt r
              \<and> machine_id r = mid \<and> metric_key r = key
              \<and> (\<forall>lo. start_ms = Some lo \<longrightarrow> lo \<le> fst p) \<and> (\<forall>hi. end_ms = Some hi \<longrightarrow> fst p \<le> hi)"
        by (rule requested_only)
    qed
    show ?thesis
      by (rule exI [of _ res], rule exI [of _ omitted]) (intro conjI run ms only len srt older strict)
  qed
  have bad: "get_history d mid key start_ms end_ms (Some n) = Inl OverflowError"
    if "\<not> (bound_ok start_ms \<and> bound_ok end_ms)"
    using q that by (rule history_overflow)
  show ?thesis
    using ok bad by blast
qed

theorem history_returns_most_recent_witness:
  "(1::int) \<le> 2 \<and> (2::int) \<le> 5000 \<and> bound_ok (Some 1100) \<and> bound_ok (Some 1300)
   \<and> length (requested ''m-001'' ''pressure'' None None (readings sample_history_db)) = 5
   \<and> get_history sample_history_db ''m-001'' ''pressure'' (Some 1100) (Some 1300) (Some 2)
       = Inr [(1200, 70), (1300, 70)]
   \<and> get_history sample_history_db ''m-001'' ''pressure'' (Some 1100) (Some 1300) (Some 5)
       = Inr [(1100, 70), (1200, 70), (1300, 70)]
   \<and> get_history sample_history_db ''m-001'' ''pressure'' None None (Some 2) = Inr [(1300, 70), (1500, 70)]
   \<and> get_history sample_history_db ''m-001'' ''pressure'' None (Some 9223372036854775808) (Some 2)
       = Inl OverflowError"
  using history_returns_most_recent [of 2 "Some 1100" "Some 1300" sample_history_db "''m-001''" "''pressure''"]
    sample_history_eval sample_history_pressure
  by (simp add: bound_ok_def)

text \<open>
  Claim C5, as stated, fails for \<open>/history\<close>: \<open>get_history\<close> makes no existence check. On
  the seeded catalog a history request for an unknown machine id succeeds, with the
  empty list.
\<close>

theorem unknown_machine_history_counterexample:
  "''does-not-exist'' \<notin> set (map m_machine_id (machines (seed (empty_db :: int db))))
   \<and> get_history (seed (empty_db :: int db)) ''does-not-exist'' ''temperature'' None None None = Inr []"
  by (simp add: sample_defs get_history_def Query_int_def history_body_def sql_limit_def
      history_params_def fits_int64_def)

text \<open>
  Claim C5, amended. For a machine id that is not in the catalog, \<open>/latest\<close> fails with
  404 "Unknown machine_id" and returns no rows; a \<open>/history\<close> request with a valid limit
  and with bounds that are signed 64-bit integers is not rejected: it succeeds and
  returns the stored readings of that machine id and the metric within the bounds, the
  most recent \<open>limit\<close> of them when there are more, in ascending order of \<open>ts_ms\<close>; it
  returns the empty list when the store holds no reading with that machine id.
\<close>

theorem unknown_machine:
  assumes "mid \<notin> set (map m_machine_id (machines d))"
      and "Query_int 500 1 5000 limit = Inr n"
      and "bound_ok start_ms" and "bound_ok end_ms"
  shows "get_latest d mid = Inl (HTTPException 404 ''Unknown machine_id'')
       \<and> (\<exists>points omitted. get_history d mid key start_ms end_ms limit = Inr points
            \<and> mset points + mset omitted
                = mset (map (\<lambda>r. (ts_ms r, value_f r)) (requested mid key start_ms end_ms (readings d)))
            \<and> length points = min (nat n) (length (requested mid key start_ms end_ms (readings d)))
            \<and> sorted (map fst points)
            \<and> (\<forall>p \<in> set points. \<forall>q \<in> set omitted. fst q \<le> fst p)
            \<and> ((\<forall>r \<in> set (readings d). machine_id r \<noteq> mid) \<longrightarrow> points = []))"
proof -
  let ?pt = "\<lambda>r :: 'a reading. (ts_ms r, value_f r)"
  let ?M = "requested mid key start_ms end_ms (readings d)"
  have latest: "get_latest d mid = Inl (HTTPException 404 ''Unknown machine_id'')"
    using assms(1) by (simp only: get_latest_def machine_filter_empty) simp
  obtain points omitted where run: "get_history d mid key start_ms end_ms limit = Inr points"
    and ms: "mset points + mset omitted = mset (map ?pt ?M)"
    and len: "length points = min (nat n) (length ?M)"
    and srt: "sorted (map fst points)"
    and older: "\<forall>p \<in> set points. \<forall>q \<in> set omitted. fst q \<le> fst p"
    using history_most_recent [OF assms(2,3,4), of d mid key] by blast
  have none: "(\<forall>r \<in> set (readings d). machine_id r \<noteq> mid) \<longrightarrow> points = []"
  proof
    assume "\<forall>r \<in> set (readings d). machine_id r \<noteq> mid"
    then have "?M = []"
      by (simp add: requested_def filter_empty_conv)
    then show "points = []" using len by simp
  qed
  have hist: "\<exists>points omitted. get_history d mid key start_ms end_ms limit = Inr points
            \<and> mset points + mset omitted = mset (map ?pt ?M)
            \<and> length points = min (nat n) (length ?M)
            \<and> sorted (map fst points)
            \<and> (\<forall>p \<in> set points. \<forall>q \<in> set omitted. fst q \<le> fst p)
            \<and> ((\<forall>r \<in> set (readings d). machine_id r \<noteq> mid) \<longrightarrow> points = [])"
    by (rule exI [of _ points], rule exI [of _ omitted]) (intro conjI run ms len srt older none)
  show ?thesis
    using latest hist by (rule conjI)
qed

theorem unknown_machine_witness:
  "''m-404'' \<notin> set (map m_machine_id (machines sample_history_db))
   \<and> Query_int 500 1 5000 None = Inr 500
   \<and> bound_ok (Some 1000) \<and> bound_ok (Some 2000)
   \<and> get_latest sample_history_db ''m-404'' = Inl (HTTPException 404 ''Unknown machine_id'')
   \<and> get_history sample_history_db ''m-404'' ''temperature'' (Some 1000) (Some 2000) None = Inr []"
proof -
  have a: "''m-404'' \<notin> set (map m_machine_id (machines sample_history_db))"
    by (simp add: sample_history_machines)
  have b: "Query_int 500 1 5000 None = Inr 500"
    by (simp add: Query_int_def)
  have lo: "bound_ok (Some 1000)" and hi: "bound_ok (Some 2000)"
    by (simp_all add: bound_ok_def)
  have c: "\<forall>r \<in> set (readings sample_history_db). machine_id r \<noteq> ''m-404''"
    by (simp add: sample_history_db_def tick_defs sample_defs)
  from unknown_machine [OF a b lo hi, of "''temperature''"] c
  have "get_latest sample_history_db ''m-404'' = Inl (HTTPException 404 ''Unknown machine_id'')"
    and "get_history sample_history_db ''m-404'' ''temperature'' (Some 1000) (Some 2000) None = Inr []"
    by auto
  with a b lo hi show ?thesis by simp
qed

section \<open>Migrations\<close>

lemma migration_loop_char:
  assumes "distinct (map fst mfs)"
      and "schema_migrations st = Some vs"
      and "\<forall>f \<in> set mfs. fst f \<notin> set applied \<longrightarrow> fst f \<notin> set vs"
  shows "migration_loop applied mfs st =
    (case run_scripts (map snd [f \<leftarrow> mfs. fst f \<notin> set applied]) (contents st) of
       Inl e \<Rightarrow> Inl e
     | Inr c \<Rightarrow> Inr (st\<lparr>schema_migrations := Some (vs @ map fst [f \<leftarrow> mfs. fst f \<notin> set applied]),
                       contents := c\<rparr>))"
  using assms
proof (induction mfs arbitrary: st vs)
  case Nil
  then show ?case by simp
next
  case (Cons mf mfs)
  show ?case
  proof (cases "fst mf \<in> set applied")
    case True
    then show ?thesis using Cons.IH [of st vs] Cons.prems by (simp cong: sum.case_cong)
  next
    case False
    show ?thesis
    proof (cases "snd mf (contents st)")
      case (Inl e)
      then show ?thesis using False by simp
    next
      case (Inr c)
      let ?st' = "st\<lparr>contents := c, schema_migrations := Some (vs @ [fst mf])\<rparr>"
      have fresh: "fst mf \<notin> set vs" using Cons.prems(3) False by simp
      have ins: "insert_version (fst mf) (st\<lparr>contents := c\<rparr>) = Inr ?st'"
        using Cons.prems(2) fresh by (simp add: insert_version_def)
      have rest: "\<forall>f \<in> set mfs. fst f \<notin> set applied \<longrightarrow> fst f \<notin> set (vs @ [fst mf])"
        using Cons.prems(1,3) by (auto simp: image_iff)
      have "migration_loop applied mfs ?st' =
        (case run_scripts (map snd [f \<leftarrow> mfs. fst f \<notin> set applied]) (contents ?st') of
           Inl e \<Rightarrow> Inl e
         | Inr c' \<Rightarrow> Inr (?st'\<lparr>schema_migrations := Some ((vs @ [fst mf]) @ map fst [f \<leftarrow> mfs. fst f \<notin> set applied]),
                           contents := c'\<rparr>))"
        using Cons.prems(1) rest by (intro Cons.IH) simp_all
      then show ?thesis using False Inr ins by (simp cong: sum.case_cong)
    qed
  qed
qed

lemma create_schema_migrations_simps:
  "schema_migrations (create_schema_migrations st) = Some (select_versions st)"
  "select_versions (create_schema_migrations st) = select_versions st"
  "contents (create_schema_migrations st) = contents st"
  "create_schema_migrations st\<lparr>schema_migrations := x\<rparr> = st\<lparr>schema_migrations := x\<rparr>"
  by (simp_all add: create_schema_migrations_def select_versions_def split: option.splits)

lemma distinct_sorted_glob:
  assumes "distinct (map fst dir)"
  shows "distinct (map fst (sort_key fst (glob_sql dir)))"
proof -
  have "mset (map fst (sort_key fst (glob_sql dir))) = mset (map fst (glob_sql dir))"
    by simp
  moreover have "distinct (map fst (glob_sql dir))"
    using assms by (simp add: glob_sql_def distinct_map_filter)
  ultimately show ?thesis
    using mset_eq_imp_distinct_iff by blast
qed

lemma apply_migrations_char:
  assumes "distinct (map fst dir)"
  shows "apply_migrations dir st =
    (case run_scripts (map snd (pending dir (select_versions st))) (contents st) of
       Inl e \<Rightarrow> Inl e
     | Inr c \<Rightarrow> Inr (st\<lparr>schema_migrations := Some (select_versions st @ map fst (pending dir (select_versions st))),
                       contents := c\<rparr>))"
proof -
  let ?st1 = "create_schema_migrations st"
  have "migration_loop (select_versions st) (sort_key fst (glob_sql dir)) ?st1 =
    (case run_scripts (map snd (pending dir (select_versions st))) (contents ?st1) of
       Inl e \<Rightarrow> Inl e
     | Inr c \<Rightarrow> Inr (?st1\<lparr>schema_migrations := Some (select_versions st @ map fst (pending dir (select_versions st))),
                       contents := c\<rparr>))"
    unfolding pending_def
    by (rule migration_loop_char)
       (simp_all add: distinct_sorted_glob [OF assms] create_schema_migrations_simps del: set_sort distinct_sort)
  then show ?thesis
    by (simp add: apply_migrations_def Let_def create_schema_migrations_simps cong: sum.case_cong)
qed

lemma pending_sorted: "distinct (map fst dir) \<Longrightarrow> sorted_wrt (<) (map fst (pending dir applied))"
proof -
  assume d: "distinct (map fst dir)"
  have "sorted (map fst (sort_key fst (glob_sql dir)))" by simp
  then have "sorted (map fst (pending dir applied))"
    unfolding pending_def by (simp add: sorted_filter del: sorted_sort_key)
  moreover have "distinct (map fst (pending dir applied))"
    unfolding pending_def using distinct_sorted_glob [OF d] by (simp add: distinct_map_filter del: distinct_sort)
  ultimately show ?thesis by (simp add: strict_sorted_iff)
qed

lemma pending_after: "pending dir (applied @ map fst (pending dir applied)) = []"
  by (auto simp: pending_def filter_empty_conv)

text \<open>
  Claim C3. On a directory whose file names are distinct, \<open>apply_migrations\<close> runs the
  scripts of the \<open>*.sql\<close> files that are not yet recorded, in strictly ascending order of
  file name; it fails where the first script fails, and otherwise records the versions
  applied, in that order, after those recorded before. A second run on the store that a
  successful run returns changes nothing.
\<close>

theorem migrations_in_order_and_idempotent:
  assumes "distinct (map fst dir)"
  shows "apply_migrations dir st =
      (case run_scripts (map snd (pending dir (select_versions st))) (contents st) of
         Inl e \<Rightarrow> Inl e
       | Inr c \<Rightarrow> Inr (st\<lparr>schema_migrations := Some (select_versions st @ map fst (pending dir (select_versions st))),
                         contents := c\<rparr>))
    \<and> sorted_wrt (<) (map fst (pending dir (select_versions st)))
    \<and> (\<forall>st'. apply_migrations dir st = Inr st' \<longrightarrow> apply_migrations dir st' = Inr st')"
proof -
  let ?A = "select_versions st" and ?P = "pending dir (select_versions st)"
  have idem: "apply_migrations dir st' = Inr st'" if run: "apply_migrations dir st = Inr st'" for st'
  proof -
    obtain c where c: "run_scripts (map snd ?P) (contents st) = Inr c"
      and st': "st' = st\<lparr>schema_migrations := Some (?A @ map fst ?P), contents := c\<rparr>"
      using run apply_migrations_char [OF assms, of st] by (auto split: sum.splits)
    have sv: "select_versions st' = ?A @ map fst ?P"
      by (simp add: st' select_versions_def)
    show ?thesis
      by (simp add: apply_migrations_char [OF assms, of st'] sv pending_after) (simp add: st')
  qed
  show ?thesis
    using apply_migrations_char [OF assms, of st] pending_sorted [OF assms] idem by blast
qed

lemmas migr_defs = apply_migrations_def create_schema_migrations_def select_versions_def glob_sql_def is_sql_def
  sample_migrations_def create_table_def insert_version_def

lemma sample_migrations_run:
  "apply_migrations sample_migrations \<lparr>schema_migrations = None, contents = []\<rparr>
     = Inr \<lparr>schema_migrations = Some [''001_init.sql'', ''002_latest.sql''], contents = [''readings'', ''latest_readings'']\<rparr>"
  by (simp add: migr_defs)

theorem migrations_in_order_and_idempotent_witness:
  "distinct (map fst sample_migrations)
   \<and> apply_migrations sample_migrations \<lparr>schema_migrations = None, contents = []\<rparr>
       = Inr \<lparr>schema_migrations = Some [''001_init.sql'', ''002_latest.sql''],
              contents = [''readings'', ''latest_readings'']\<rparr>
   \<and> apply_migrations sample_migrations
        \<lparr>schema_migrations = Some [''001_init.sql'', ''002_latest.sql''],
         contents = [''readings'', ''latest_readings'']\<rparr>
       = Inr \<lparr>schema_migrations = Some [''001_init.sql'', ''002_latest.sql''],
              contents = [''readings'', ''latest_readings'']\<rparr>"
proof -
  have d: "distinct (map fst sample_migrations)"
    by (simp add: sample_migrations_def)
  from migrations_in_order_and_idempotent [OF d, of "\<lparr>schema_migrations = None, contents = []\<rparr>"] sample_migrations_run
  show ?thesis using d by simp
qed

end
